theory Spec2Isabelle
  imports Main "HOL-Library.Multiset" "HOL-Library.Word"
begin

section \<open>The sensision exporter (package core, row-scanning Scrape)\<close>

text \<open>
  The exporter that renders warp10/sensision lines reads the report field by field with
  the yacr reader. The reader itself is a library outside the repository, so the model
  takes what the scan loop sees of it: the sequence of scanned fields, each with the
  answer of \<^verbatim>\<open>r.EndOfRecord()\<close> for that field.
\<close>

definition rowLength :: nat where
  "rowLength = 62"

text \<open>A Go runtime panic (a nil dereference or an index out of range).\<close>

datatype panic = NilDeref | IndexOutOfRange

text \<open>One scanned field: its text and whether it ends a record.\<close>

type_synonym token = "string \<times> bool"

text \<open>
  The table \<^verbatim>\<open>e.metrics\<close> of \<^verbatim>\<open>NewExporter\<close>, a Go \<^verbatim>\<open>map[int]string\<close>, as an
  association list in the order of the source text. Its keys are distinct; the order in
  which Go ranges over a map is not fixed, so every loop over the table takes the order
  as a parameter.
\<close>

definition metric_table :: "(nat \<times> string) list" where
  "metric_table =
    [(2, ''qcur''), (3, ''qmax''), (4, ''scur''), (5, ''smax''), (6, ''slim''),
     (7, ''stot''), (8, ''bin''), (9, ''bout''), (10, ''dreq''), (11, ''dresp''),
     (12, ''ereq''), (13, ''econ''), (14, ''eresp''), (15, ''wretr''), (16, ''wredis''),
     (17, ''status''), (18, ''weight''), (19, ''act''), (20, ''bck''), (21, ''chkfail''),
     (22, ''chkdown''), (23, ''lastchg''), (24, ''downtime''), (25, ''qlimit''),
     (26, ''pid''), (27, ''iid''), (28, ''sid''), (29, ''throttle''), (30, ''lbtot''),
     (31, ''tracked''), (33, ''current_session_rate''), (34, ''limit_session_rate''),
     (35, ''max_session_rate''), (36, ''check_status''), (37, ''check_code''),
     (38, ''check_duration''), (39, ''hrsp_1xx''), (40, ''hrsp_2xx''), (41, ''hrsp_3xx''),
     (42, ''hrsp_4xx''), (43, ''hrsp_5xx''), (44, ''hrsp_other''), (46, ''req_rate''),
     (47, ''req_rate_max''), (48, ''req_tot''), (49, ''cli_abrt''), (50, ''srv_abrt''),
     (51, ''comp_in''), (52, ''comp_out''), (53, ''comp_byp''), (54, ''comp_rsp''),
     (55, ''lastsess''), (56, ''last_chk''), (58, ''qtime''), (59, ''ctime''),
     (60, ''rtime''), (61, ''ttime'')]"

text \<open>
  The allow-list filter of \<^verbatim>\<open>NewExporter\<close>: with a non-empty list, every entry whose
  name is not in the list is deleted from the table.
\<close>

definition filter_metrics :: "string list \<Rightarrow> (nat \<times> string) list \<Rightarrow> (nat \<times> string) list" where
  "filter_metrics allow tbl =
     (if 0 < length allow then filter (\<lambda>(i, n). n \<in> set allow) tbl else tbl)"

text \<open>\<^verbatim>\<open>e.metrics[i]\<close>: a missing key reads as the empty string.\<close>

definition metric_name :: "(nat \<times> string) list \<Rightarrow> nat \<Rightarrow> string" where
  "metric_name ms i = (case map_of ms i of None \<Rightarrow> [] | Some n \<Rightarrow> n)"

record Exporter =
  URI :: string
  metrics :: "(nat \<times> string) list"
  sensision :: string
  labels :: string

text \<open>
  One line written to the buffer, kept structured: the metric name, the exporter's static
  label prefix, the three row labels and the value text.
\<close>

record sample =
  s_name :: string
  s_labels :: string
  s_pxname :: string
  s_svname :: string
  s_type :: string
  s_value :: string

text \<open>The line \<^verbatim>\<open>gts\<close> built for one sample; \<open>now\<close> is the timestamp prefix.\<close>

definition gts :: "string \<Rightarrow> sample \<Rightarrow> string" where
  "gts now s =
     now @ s_name s @ ''{'' @ s_labels s @ ''pxname='' @ s_pxname s @ '',svname='' @ s_svname s
       @ '',type='' @ s_type s @ ''} '' @ s_value s @ [CHR 0x0A]"

text \<open>The status switch: five strings give 1, everything else 0.\<close>

definition recode_status :: "string \<Rightarrow> string" where
  "recode_status v =
     (if v \<in> {''UP'', ''UP 1/3'', ''UP 2/3'', ''OPEN'', ''no check''} then ''1''
      else if v \<in> {''DOWN'', ''DOWN 1/2'', ''NOLB'', ''MAINT''} then ''0''
      else ''0'')"

text \<open>The switch on \<^verbatim>\<open>*values[32]\<close>: four codes have a name, anything else leaves it empty.\<close>

definition recode_type :: "string \<Rightarrow> string" where
  "recode_type v =
     (if v = ''0'' then ''frontend''
      else if v = ''1'' then ''backend''
      else if v = ''2'' then ''server''
      else if v = ''3'' then ''listen''
      else [])"

text \<open>
  The sparse value array: a slot is a pointer to a string, \<open>None\<close> is the nil pointer.
  Slots exist for the columns of the table and for columns 0, 1 and 32.
\<close>

definition build_values :: "(nat \<times> string) list \<Rightarrow> string option list" where
  "build_values ms =
     map (\<lambda>i. if metric_name ms i = [] \<and> i \<noteq> 0 \<and> i \<noteq> 1 \<and> i \<noteq> 32 then None else Some [])
       [0..<rowLength]"

text \<open>\<^verbatim>\<open>*values[i]\<close>: reading through a slot panics when it is out of range or nil.\<close>

definition deref :: "string option list \<Rightarrow> nat \<Rightarrow> panic + string" where
  "deref vs i =
     (if i < length vs then (case vs ! i of None \<Rightarrow> Inl NilDeref | Some s \<Rightarrow> Inr s)
      else Inl IndexOutOfRange)"

text \<open>\<^verbatim>\<open>if i < rowLength && values[i] != nil { r.Value(values[i]) }\<close>\<close>

definition store_field :: "nat \<Rightarrow> string \<Rightarrow> string option list \<Rightarrow> string option list" where
  "store_field i f vs = (if i < rowLength \<and> vs ! i \<noteq> None then vs[i := Some f] else vs)"

text \<open>The body of the loop over the table for one column, at the end of a record.\<close>

definition emit_field ::
  "(nat \<times> string) list \<Rightarrow> string \<Rightarrow> string option list \<Rightarrow> nat \<Rightarrow> panic + sample list" where
  "emit_field ms lbl vs fieldIdx =
     (case deref vs fieldIdx of
        Inl p \<Rightarrow> Inl p
      | Inr valueStr \<Rightarrow>
          if valueStr = [] then Inr []
          else (case deref vs 32 of
                  Inl p \<Rightarrow> Inl p
                | Inr ty \<Rightarrow>
                   (case deref vs 0 of
                      Inl p \<Rightarrow> Inl p
                    | Inr px \<Rightarrow>
                       (case deref vs 1 of
                          Inl p \<Rightarrow> Inl p
                        | Inr sv \<Rightarrow>
                            Inr [\<lparr>s_name = metric_name ms fieldIdx, s_labels = lbl,
                                  s_pxname = px, s_svname = sv, s_type = recode_type ty,
                                  s_value = (if fieldIdx = 17 then recode_status valueStr
                                             else valueStr)\<rparr>]))))"

text \<open>The loop over the table in a given order; a panic ends it.\<close>

fun emit_record ::
  "(nat \<times> string) list \<Rightarrow> string \<Rightarrow> string option list \<Rightarrow> nat list \<Rightarrow> panic + sample list" where
  "emit_record ms lbl vs [] = Inr []"
| "emit_record ms lbl vs (k # ks) =
     (case emit_field ms lbl vs k of
        Inl p \<Rightarrow> Inl p
      | Inr ss \<Rightarrow> (case emit_record ms lbl vs ks of Inl p \<Rightarrow> Inl p | Inr ss' \<Rightarrow> Inr (ss @ ss')))"

text \<open>
  The scan loop. \<open>i\<close> is the field counter, \<open>n\<close> counts the records completed so far and
  selects the order \<open>ord n\<close> in which the table is visited for that record, \<open>out\<close> is what
  has been written. The counter \<open>i\<close> is a Go \<^verbatim>\<open>int\<close>; it is bounded by the number of
  fields read, so it is a natural number here.
\<close>

fun scan ::
  "(nat \<times> string) list \<Rightarrow> string \<Rightarrow> (nat \<Rightarrow> nat list) \<Rightarrow> token list \<Rightarrow> nat \<Rightarrow> nat \<Rightarrow>
     string option list \<Rightarrow> sample list \<Rightarrow> panic + (string option list \<times> sample list)" where
  "scan ms lbl ord [] i n vs out = Inr (vs, out)"
| "scan ms lbl ord ((f, eor) # ts) i n vs out =
     (let vs' = store_field i f vs in
      if eor then
        (case emit_record ms lbl vs' (ord n) of
           Inl p \<Rightarrow> Inl p
         | Inr ss \<Rightarrow> scan ms lbl ord ts 0 (Suc n) vs' (out @ ss))
      else scan ms lbl ord ts (Suc i) n vs' out)"

text \<open>\<^verbatim>\<open>r.SkipRecords(1)\<close>: fields are read and dropped up to the first end of record.\<close>

definition SkipRecords1 :: "token list \<Rightarrow> token list" where
  "SkipRecords1 ts = (case dropWhile (\<lambda>(f, eor). \<not> eor) ts of [] \<Rightarrow> [] | t # r \<Rightarrow> r)"

definition clear :: "Exporter \<Rightarrow> Exporter" where
  "clear e = e\<lparr>sensision := []\<rparr>"

text \<open>\<^verbatim>\<open>Metrics()\<close> hands out the bytes of the buffer.\<close>

definition Metrics :: "Exporter \<Rightarrow> string" where
  "Metrics e = sensision e"

text \<open>
  The part of \<^verbatim>\<open>Scrape()\<close> between the fetch and the return: the reader skips the first
  record, the value array is built, and the scan loop runs over the rest of the body.
\<close>

definition scan_body ::
  "(nat \<Rightarrow> nat list) \<Rightarrow> token list \<Rightarrow> Exporter \<Rightarrow> panic + (string option list \<times> sample list)" where
  "scan_body ord ts e =
     scan (metrics e) (labels e) ord (SkipRecords1 ts) 0 0 (build_values (metrics e)) []"

text \<open>
  \<^verbatim>\<open>Scrape()\<close>. The result of \<^verbatim>\<open>e.fetch()\<close> is the argument \<open>body\<close>: an error text or the
  fields the reader scans from the body. The result is a panic or the returned flag with
  the exporter afterwards.
\<close>

definition Scrape ::
  "(nat \<Rightarrow> nat list) \<Rightarrow> string \<Rightarrow> string + token list \<Rightarrow> Exporter \<Rightarrow> panic + (bool \<times> Exporter)" where
  "Scrape ord now body e =
     (let e1 = clear e in
      case body of
        Inl err \<Rightarrow> Inr (False, e1)
      | Inr ts \<Rightarrow>
         (case scan_body ord ts e1 of
            Inl p \<Rightarrow> Inl p
          | Inr (vs, ss) \<Rightarrow>
              Inr (True, e1\<lparr>sensision := sensision e1 @ concat (map (gts now) ss)\<rparr>)))"

subsection \<open>Records of the report as the scan loop sees them\<close>

text \<open>
  A record with the fields \<open>fs\<close> reaches the loop as one scanned field after the other,
  the last one ending the record. Every record has at least one field.
\<close>

definition record_tokens :: "string list \<Rightarrow> token list" where
  "record_tokens fs = map (\<lambda>f. (f, False)) (butlast fs) @ [(last fs, True)]"

text \<open>What the loop stores while it reads the fields \<open>fs\<close>, the first into slot \<open>i\<close>.\<close>

fun store_fields :: "nat \<Rightarrow> string list \<Rightarrow> string option list \<Rightarrow> string option list" where
  "store_fields i [] vs = vs"
| "store_fields i (f # fs) vs = store_fields (Suc i) fs (store_field i f vs)"

definition store_records :: "string list list \<Rightarrow> string option list \<Rightarrow> string option list" where
  "store_records rs vs = foldl (\<lambda>v r. store_fields 0 r v) vs rs"

text \<open>
  The field of column \<open>c\<close> in the latest of the records \<open>rs\<close> that has such a field,
  starting from \<open>v\<close> when none has.
\<close>

definition leftover_from :: "string \<Rightarrow> string list list \<Rightarrow> nat \<Rightarrow> string" where
  "leftover_from v rs c = foldl (\<lambda>v r. if c < length r then r ! c else v) v rs"

definition leftover :: "string list list \<Rightarrow> nat \<Rightarrow> string" where
  "leftover rs c = leftover_from [] rs c"

definition keys :: "(nat \<times> string) list \<Rightarrow> nat set" where
  "keys ms = fst ` set ms"

text \<open>Every column of the table lies inside the value array and has a name.\<close>

definition wf_metrics :: "(nat \<times> string) list \<Rightarrow> bool" where
  "wf_metrics ms = (\<forall>(i, n) \<in> set ms. i < rowLength \<and> n \<noteq> [])"

text \<open>The value array has its length and a slot for columns 0, 1, 32 and the table's.\<close>

definition slots_ok :: "(nat \<times> string) list \<Rightarrow> string option list \<Rightarrow> bool" where
  "slots_ok ms vs =
     (length vs = rowLength \<and> (\<forall>k \<in> {0, 1, 32} \<union> keys ms. k < rowLength \<and> vs ! k \<noteq> None))"

definition slot_val :: "string option list \<Rightarrow> nat \<Rightarrow> string" where
  "slot_val vs k = (case vs ! k of None \<Rightarrow> [] | Some s \<Rightarrow> s)"

text \<open>What one column contributes at the end of a record when no slot is missing.\<close>

definition field_samples ::
  "(nat \<times> string) list \<Rightarrow> string \<Rightarrow> string option list \<Rightarrow> nat \<Rightarrow> sample list" where
  "field_samples ms lbl vs k =
     (if slot_val vs k = [] then []
      else [\<lparr>s_name = metric_name ms k, s_labels = lbl, s_pxname = slot_val vs 0,
             s_svname = slot_val vs 1, s_type = recode_type (slot_val vs 32),
             s_value = (if k = 17 then recode_status (slot_val vs k) else slot_val vs k)\<rparr>])"

fun records_samples ::
  "(nat \<times> string) list \<Rightarrow> string \<Rightarrow> (nat \<Rightarrow> nat list) \<Rightarrow> nat \<Rightarrow> string list list \<Rightarrow>
     string option list \<Rightarrow> sample list" where
  "records_samples ms lbl ord n [] vs = []"
| "records_samples ms lbl ord n (r # rs) vs =
     concat (map (field_samples ms lbl (store_fields 0 r vs)) (ord n))
       @ records_samples ms lbl ord (Suc n) rs (store_fields 0 r vs)"

text \<open>The table in the order of the source text, as one possible order of the range loop.\<close>

definition table_order :: "nat \<Rightarrow> nat list" where
  "table_order n = map fst metric_table"

section \<open>The fetchers of NewExporter\<close>












section \<open>The Prometheus exporter (package core, csv.Reader Scrape)\<close>

text \<open>
  The other exporter of the repository keeps one gauge vector per column and reads the
  report with \<^verbatim>\<open>encoding/csv\<close>. Its table has no entry for columns 36, 37 and 56. Only the
  metric names are kept here, not the help texts.
\<close>

definition prom_metric_table :: "(nat \<times> string) list" where
  "prom_metric_table =
    [(2, ''qcur''), (3, ''qmax''), (4, ''scur''), (5, ''smax''), (6, ''slim''),
     (7, ''stot''), (8, ''bin''), (9, ''bout''), (10, ''dreq''), (11, ''dresp''),
     (12, ''ereq''), (13, ''econ''), (14, ''eresp''), (15, ''wretr''), (16, ''wredis''),
     (17, ''status''), (18, ''weight''), (19, ''act''), (20, ''bck''), (21, ''chkfail''),
     (22, ''chkdown''), (23, ''lastchg''), (24, ''downtime''), (25, ''qlimit''),
     (26, ''pid''), (27, ''iid''), (28, ''sid''), (29, ''throttle''), (30, ''lbtot''),
     (31, ''tracked''), (33, ''current_session_rate''), (34, ''limit_session_rate''),
     (35, ''max_session_rate''), (38, ''check_duration''), (39, ''hrsp_1xx''),
     (40, ''hrsp_2xx''), (41, ''hrsp_3xx''), (42, ''hrsp_4xx''), (43, ''hrsp_5xx''),
     (44, ''hrsp_other''), (46, ''req_rate''), (47, ''req_rate_max''), (48, ''req_tot''),
     (49, ''cli_abrt''), (50, ''srv_abrt''), (51, ''comp_in''), (52, ''comp_out''),
     (53, ''comp_byp''), (54, ''comp_rsp''), (55, ''lastsess''), (58, ''qtime''),
     (59, ''ctime''), (60, ''rtime''), (61, ''ttime'')]"

definition minCsvFieldCount :: nat where
  "minCsvFieldCount = 52"

text \<open>
  What one call of \<^verbatim>\<open>reader.Read()\<close> gives the loop: a row, a \<^verbatim>\<open>*csv.ParseError\<close>, or
  another error. The end of the list is \<^verbatim>\<open>io.EOF\<close>.
\<close>

datatype csv_result = Row "string list" | CsvParseError | CsvOtherError

text \<open>
  The gauges: the value set for a column under a list of label values
  (pxname, svname, type). The value is the integer before its conversion to a float.
\<close>

type_synonym gauges = "nat \<times> string list \<Rightarrow> int option"

text \<open>
  \<^verbatim>\<open>strconv.ParseInt(s, 10, 64)\<close> of the standard library: an optional sign, then one or
  more decimal digits, and the value must fit 64 bits; \<open>None\<close> is the error.
\<close>

fun parse_digits :: "string \<Rightarrow> nat \<Rightarrow> nat option" where
  "parse_digits [] acc = Some acc"
| "parse_digits (c # cs) acc =
     (if (48::nat) \<le> of_char c \<and> (of_char c :: nat) \<le> 57
      then parse_digits cs (10 * acc + (of_char c - 48))
      else None)"

definition ParseInt :: "string \<Rightarrow> int option" where
  "ParseInt s =
     (let neg = (s \<noteq> [] \<and> hd s = CHR ''-'');
          ds = (if s \<noteq> [] \<and> (hd s = CHR ''+'' \<or> hd s = CHR ''-'') then tl s else s)
      in if ds = [] then None
         else (case parse_digits ds 0 of
                 None \<Rightarrow> None
               | Some n \<Rightarrow>
                   if neg then (if n \<le> 2 ^ 63 then Some (- int n) else None)
                   else (if n < 2 ^ 63 then Some (int n) else None)))"

text \<open>
  The status branch of \<^verbatim>\<open>exportCsvFields\<close>: the switch assigns 1 or 0, and the
  statement after the switch assigns 0.
\<close>

definition prom_status_value :: "string \<Rightarrow> int" where
  "prom_status_value valueStr =
     (let value = (if valueStr \<in> {''UP'', ''UP 1/3'', ''UP 2/3'', ''OPEN'', ''no check''} then (1::int)
                   else if valueStr \<in> {''DOWN'', ''DOWN 1/2'', ''NOLB'', ''MAINT''} then 0
                   else 0);
          value = 0
      in value)"

text \<open>
  \<^verbatim>\<open>exportCsvFields\<close>: the loop over the gauge vectors in the order of the first
  argument. Reading a column the row does not have panics.
\<close>

fun exportCsvFields ::
  "nat list \<Rightarrow> string list \<Rightarrow> string list \<Rightarrow> int \<Rightarrow> gauges \<Rightarrow> panic + (int \<times> gauges)" where
  "exportCsvFields [] csvRow lbls parseFailures g = Inr (parseFailures, g)"
| "exportCsvFields (fieldIdx # ks) csvRow lbls parseFailures g =
     (if length csvRow \<le> fieldIdx then Inl IndexOutOfRange
      else
        (let valueStr = csvRow ! fieldIdx in
         if valueStr = [] then exportCsvFields ks csvRow lbls parseFailures g
         else if fieldIdx = 17 then
           exportCsvFields ks csvRow lbls parseFailures
             (g((fieldIdx, lbls) \<mapsto> prom_status_value valueStr))
         else
           (case ParseInt valueStr of
              None \<Rightarrow> exportCsvFields ks csvRow lbls (parseFailures + 1) g
            | Some value \<Rightarrow>
                exportCsvFields ks csvRow lbls parseFailures (g((fieldIdx, lbls) \<mapsto> value)))))"

text \<open>
  The read loop of \<^verbatim>\<open>Scrape\<close>: \<open>Fatal\<close> is the \<^verbatim>\<open>return -1\<close> inside the loop, \<open>Done\<close> the
  end of the input with the count of parse failures. \<open>ord n\<close> is the order of the range
  loop for the \<open>n\<close>-th exported row.
\<close>

datatype loop_result = Fatal gauges | Done int gauges

fun read_loop ::
  "(nat \<Rightarrow> nat list) \<Rightarrow> csv_result list \<Rightarrow> nat \<Rightarrow> int \<Rightarrow> gauges \<Rightarrow> panic + loop_result" where
  "read_loop ord [] n parseFailures g = Inr (Done parseFailures g)"
| "read_loop ord (CsvParseError # rs) n parseFailures g =
     read_loop ord rs n (parseFailures + 1) g"
| "read_loop ord (CsvOtherError # rs) n parseFailures g = Inr (Fatal g)"
| "read_loop ord (Row row # rs) n parseFailures g =
     (if length row = 0 then read_loop ord rs n parseFailures g
      else if length row < minCsvFieldCount then read_loop ord rs n (parseFailures + 1) g
      else
        (case exportCsvFields (ord n) row [row ! 0, row ! 1, row ! 32] 0 g of
           Inl p \<Rightarrow> Inl p
         | Inr (k, g') \<Rightarrow> read_loop ord rs (Suc n) (parseFailures + k) g'))"

text \<open>
  \<^verbatim>\<open>Scrape\<close> of this exporter: the fetch result is the argument, \<^verbatim>\<open>clear()\<close> resets every
  gauge vector, and the result is the returned integer with the gauges afterwards. The
  rendering into the published buffer runs later in a goroutine of its own and is not
  part of this function.
\<close>

definition prom_clear :: "gauges \<Rightarrow> gauges" where
  "prom_clear g = Map.empty"

definition prom_Scrape ::
  "(nat \<Rightarrow> nat list) \<Rightarrow> string + csv_result list \<Rightarrow> gauges \<Rightarrow> panic + (int \<times> gauges)" where
  "prom_Scrape ord body g =
     (let g1 = prom_clear g in
      case body of
        Inl err \<Rightarrow> Inr (- 1, g1)
      | Inr rs \<Rightarrow>
         (case read_loop ord rs 0 0 g1 of
            Inl p \<Rightarrow> Inl p
          | Inr (Fatal g2) \<Rightarrow> Inr (- 1, g2)
          | Inr (Done parseFailures g2) \<Rightarrow> Inr (parseFailures, g2)))"

definition prom_table_order :: "nat \<Rightarrow> nat list" where
  "prom_table_order n = map fst prom_metric_table"


text \<open>The gauge of column \<open>k\<close> under the label values \<open>lbls\<close> after a scrape.\<close>

definition gauge_at :: "panic + (int \<times> gauges) \<Rightarrow> nat \<Rightarrow> string list \<Rightarrow> int option" where
  "gauge_at r k lbls = (case r of Inl p \<Rightarrow> None | Inr (n, g) \<Rightarrow> g (k, lbls))"

section \<open>The scheduler (Beamer)\<close>

text \<open>
  The three counters of the Beamer are \<^verbatim>\<open>int64\<close>: 64-bit words read as signed, and
  \<^verbatim>\<open>++\<close> wraps around.
\<close>

record Beamer =
  scrapeCounter :: "64 word"
  scrapeSkiped :: "64 word"
  scrapeFailures :: "64 word"

text \<open>
  The state of the loop started by \<^verbatim>\<open>NewBeamer\<close>: the counters, the cursor \<open>i\<close>, the
  number of tokens held in the channel \<^verbatim>\<open>running\<close>, and the number of scrape goroutines
  that have not yet recorded their outcome.
\<close>

record scheduler =
  beamer :: Beamer
  cursor :: nat
  running :: nat
  unreported :: nat

text \<open>
  What can happen: the ticker fires; a dispatched scrape returns and its goroutine
  records the outcome; a goroutine that has recorded its outcome takes its token back
  from the channel.
\<close>

datatype event = Tick | ScrapeReturns bool | SlotReleased

text \<open>
  One step for \<open>N\<close> exporters and a channel of capacity \<open>K\<close>. The send in the inner select
  goes through when the channel has room; otherwise the default branch runs. An event
  that cannot happen in a state leaves it as it is.
\<close>

fun step :: "nat \<Rightarrow> nat \<Rightarrow> event \<Rightarrow> scheduler \<Rightarrow> scheduler" where
  "step N K Tick s =
     (if running s < K then
        s\<lparr>beamer := (beamer s)\<lparr>scrapeCounter := scrapeCounter (beamer s) + 1\<rparr>,
          cursor := (if Suc (cursor s) \<ge> N then 0 else Suc (cursor s)),
          running := Suc (running s),
          unreported := Suc (unreported s)\<rparr>
      else s\<lparr>beamer := (beamer s)\<lparr>scrapeSkiped := scrapeSkiped (beamer s) + 1\<rparr>\<rparr>)"
| "step N K (ScrapeReturns success) s =
     (if unreported s = 0 then s
      else s\<lparr>beamer := (if \<not> success
                          then (beamer s)\<lparr>scrapeFailures := scrapeFailures (beamer s) + 1\<rparr>
                          else beamer s),
             unreported := unreported s - 1\<rparr>)"
| "step N K SlotReleased s =
     (if running s \<le> unreported s then s else s\<lparr>running := running s - 1\<rparr>)"

definition init :: scheduler where
  "init = \<lparr>beamer = \<lparr>scrapeCounter = 0, scrapeSkiped = 0, scrapeFailures = 0\<rparr>,
           cursor = 0, running = 0, unreported = 0\<rparr>"

fun run :: "nat \<Rightarrow> nat \<Rightarrow> event list \<Rightarrow> scheduler \<Rightarrow> scheduler" where
  "run N K [] s = s"
| "run N K (ev # evs) s = run N K evs (step N K ev s)"

text \<open>No counter, read as an unsigned number, is above \<open>n\<close>.\<close>

definition counters_below :: "nat \<Rightarrow> Beamer \<Rightarrow> bool" where
  "counters_below n b =
     (unat (scrapeCounter b) \<le> n \<and> unat (scrapeSkiped b) \<le> n \<and> unat (scrapeFailures b) \<le> n)"

section \<open>Concrete inputs\<close>

text \<open>
  A full row of 62 fields: proxy \<open>web\<close>, service \<open>FRONTEND\<close>, status \<open>UP\<close> in column 17,
  object type \<open>0\<close> in column 32, every other field empty.
\<close>

definition up_row :: "string list" where
  "up_row = [''web'', ''FRONTEND''] @ replicate 15 [] @ [''UP''] @ replicate 14 []
              @ [''0''] @ replicate 29 []"

definition reverse_order :: "nat \<Rightarrow> nat list" where
  "reverse_order n = rev (map fst metric_table)"

definition status_order :: "nat \<Rightarrow> nat list" where
  "status_order n = [17]"

definition demo_exporter :: Exporter where
  "demo_exporter = \<lparr>URI = ''http://localhost/haproxy?stats;csv'', metrics = metric_table,
                     sensision = [], labels = []\<rparr>"

text \<open>A report of two records: the header line and a record of three fields.\<close>

definition short_report :: "token list" where
  "short_report = record_tokens [''# pxname'', ''svname'']
                    @ record_tokens [''web'', ''FRONTEND'', ''5'']"

text \<open>The samples a run of the scan loop has written, none after a panic.\<close>

definition emitted :: "panic + (string option list \<times> sample list) \<Rightarrow> sample list" where
  "emitted r = (case r of Inl p \<Rightarrow> [] | Inr (vs, ss) \<Rightarrow> ss)"



section \<open>Properties of the row-scanning exporter\<close>

subsection \<open>The value array and the samples of a record\<close>

lemma wf_metric_table: "wf_metrics metric_table"
  by (simp add: wf_metrics_def metric_table_def rowLength_def)

lemma wf_filter_metrics: "wf_metrics tbl \<Longrightarrow> wf_metrics (filter_metrics allow tbl)"
  by (auto simp: wf_metrics_def filter_metrics_def)

lemma metric_name_nonempty:
  assumes "wf_metrics ms" "k \<in> keys ms"
  shows "metric_name ms k \<noteq> []"
proof -
  from assms(2) obtain n where "map_of ms k = Some n"
    by (auto simp: keys_def dest: weak_map_of_SomeI)
  moreover from this have "(k, n) \<in> set ms" by (rule map_of_SomeD)
  ultimately show ?thesis using assms(1) by (auto simp: metric_name_def wf_metrics_def)
qed

lemma build_values_nth:
  "k < rowLength \<Longrightarrow>
   build_values ms ! k =
     (if metric_name ms k = [] \<and> k \<noteq> 0 \<and> k \<noteq> 1 \<and> k \<noteq> 32 then None else Some [])"
  by (simp add: build_values_def)

lemma length_build_values: "length (build_values ms) = rowLength"
  by (simp add: build_values_def)

lemma slots_ok_build_values: "wf_metrics ms \<Longrightarrow> slots_ok ms (build_values ms)"
  unfolding slots_ok_def
proof (intro conjI ballI)
  fix k assume wf: "wf_metrics ms" and k: "k \<in> {0, 1, 32} \<union> keys ms"
  show "k < rowLength" using wf k by (auto simp: wf_metrics_def keys_def rowLength_def)
  then show "build_values ms ! k \<noteq> None"
    using wf k by (auto simp: build_values_nth metric_name_nonempty)
qed (simp add: length_build_values)

lemma length_store_field: "length (store_field i f vs) = length vs"
  by (simp add: store_field_def)

lemma store_field_nth:
  "k < length vs \<Longrightarrow>
   store_field i f vs ! k = (if k = i \<and> i < rowLength \<and> vs ! i \<noteq> None then Some f else vs ! k)"
  by (auto simp: store_field_def nth_list_update)

lemma length_store_fields: "length (store_fields i fs vs) = length vs"
  by (induction fs arbitrary: i vs) (simp_all add: length_store_field)

lemma store_fields_nth:
  "k < length vs \<Longrightarrow>
   store_fields i fs vs ! k =
     (if i \<le> k \<and> k < i + length fs \<and> k < rowLength \<and> vs ! k \<noteq> None then Some (fs ! (k - i))
      else vs ! k)"
proof (induction fs arbitrary: i vs)
  case Nil
  then show ?case by auto
next
  case (Cons f fs)
  have "k < length (store_field i f vs)" using Cons.prems by (simp add: length_store_field)
  from Cons.IH [OF this, of "Suc i"] Cons.prems show ?case
    by (auto simp: store_field_nth nth_Cons' Suc_diff_le)
qed

lemma slots_ok_store_fields: "slots_ok ms vs \<Longrightarrow> slots_ok ms (store_fields i fs vs)"
  by (auto simp: slots_ok_def length_store_fields store_fields_nth)

lemma deref_ok:
  "k < length vs \<Longrightarrow> vs ! k \<noteq> None \<Longrightarrow> deref vs k = Inr (slot_val vs k)"
  by (auto simp: deref_def slot_val_def)

lemma emit_field_ok:
  assumes "slots_ok ms vs" "k \<in> keys ms"
  shows "emit_field ms lbl vs k = Inr (field_samples ms lbl vs k)"
proof -
  have "deref vs k = Inr (slot_val vs k)" "deref vs 0 = Inr (slot_val vs 0)"
    "deref vs 1 = Inr (slot_val vs 1)" "deref vs 32 = Inr (slot_val vs 32)"
    using assms by (auto simp: slots_ok_def intro!: deref_ok)
  then show ?thesis by (simp add: emit_field_def field_samples_def)
qed

lemma emit_record_ok:
  "slots_ok ms vs \<Longrightarrow> set ks \<subseteq> keys ms \<Longrightarrow>
   emit_record ms lbl vs ks = Inr (concat (map (field_samples ms lbl vs) ks))"
  by (induction ks) (simp_all add: emit_field_ok)

lemma scan_fields:
  "scan ms lbl ord (map (\<lambda>f. (f, False)) fs @ ts) i n vs out =
   scan ms lbl ord ts (i + length fs) n (store_fields i fs vs) out"
  by (induction fs arbitrary: i vs) simp_all

lemma store_fields_snoc:
  "store_fields i (fs @ [f]) vs = store_field (i + length fs) f (store_fields i fs vs)"
  by (induction fs arbitrary: i vs) simp_all

lemma scan_record:
  assumes "fs \<noteq> []"
  shows "scan ms lbl ord (record_tokens fs @ ts) 0 n vs out =
     (case emit_record ms lbl (store_fields 0 fs vs) (ord n) of
        Inl p \<Rightarrow> Inl p
      | Inr ss \<Rightarrow> scan ms lbl ord ts 0 (Suc n) (store_fields 0 fs vs) (out @ ss))"
proof -
  have fs: "fs = butlast fs @ [last fs]" using assms by simp
  have eq: "store_field (length fs - Suc 0) (last fs) (store_fields 0 (butlast fs) vs)
      = store_fields 0 fs vs"
    using store_fields_snoc [of 0 "butlast fs" "last fs" vs] fs by simp
  show ?thesis
    by (simp add: record_tokens_def scan_fields Let_def eq)
qed


lemma scan_records:
  assumes "slots_ok ms vs" "\<forall>r \<in> set rs. r \<noteq> []" "\<forall>n. set (ord n) \<subseteq> keys ms"
  shows "scan ms lbl ord (concat (map record_tokens rs) @ ts) 0 n vs out =
     scan ms lbl ord ts 0 (n + length rs) (store_records rs vs)
       (out @ records_samples ms lbl ord n rs vs)"
  using assms(1,2)
proof (induction rs arbitrary: n vs out)
  case Nil
  then show ?case by (simp add: store_records_def)
next
  case (Cons r rs)
  have ok: "slots_ok ms (store_fields 0 r vs)"
    using Cons.prems(1) by (rule slots_ok_store_fields)
  have sub: "set (ord n) \<subseteq> keys ms" using assms(3) by simp
  have r: "r \<noteq> []" using Cons.prems(2) by simp
  have "scan ms lbl ord (record_tokens r @ concat (map record_tokens rs) @ ts) 0 n vs out =
      scan ms lbl ord (concat (map record_tokens rs) @ ts) 0 (Suc n) (store_fields 0 r vs)
        (out @ concat (map (field_samples ms lbl (store_fields 0 r vs)) (ord n)))"
    by (simp add: scan_record [OF r] emit_record_ok [OF ok sub])
  also have "\<dots> = scan ms lbl ord ts 0 (Suc n + length rs) (store_records rs (store_fields 0 r vs))
        ((out @ concat (map (field_samples ms lbl (store_fields 0 r vs)) (ord n)))
           @ records_samples ms lbl ord (Suc n) rs (store_fields 0 r vs))"
    using Cons.prems(2) by (intro Cons.IH [OF ok]) simp
  finally show ?case by (simp add: store_records_def)
qed

lemma slots_ok_store_records: "slots_ok ms vs \<Longrightarrow> slots_ok ms (store_records rs vs)"
  unfolding store_records_def
  by (induction rs arbitrary: vs) (simp_all add: slots_ok_store_fields)

lemma slot_val_store_fields:
  assumes "slots_ok ms vs" "c \<in> {0, 1, 32} \<union> keys ms"
  shows "slot_val (store_fields 0 fs vs) c = (if c < length fs then fs ! c else slot_val vs c)"
proof -
  have "c < length vs" "c < rowLength" "vs ! c \<noteq> None"
    using assms by (auto simp: slots_ok_def)
  then show ?thesis by (simp add: slot_val_def store_fields_nth)
qed

lemma slot_val_store_records:
  assumes "slots_ok ms vs" "c \<in> {0, 1, 32} \<union> keys ms"
  shows "slot_val (store_records rs vs) c = leftover_from (slot_val vs c) rs c"
  using assms(1)
proof (induction rs arbitrary: vs)
  case Nil
  then show ?case by (simp add: store_records_def leftover_from_def)
next
  case (Cons r rs)
  have "slot_val (store_records rs (store_fields 0 r vs)) c =
      leftover_from (slot_val (store_fields 0 r vs) c) rs c"
    by (rule Cons.IH) (rule slots_ok_store_fields [OF Cons.prems])
  then show ?case
    using slot_val_store_fields [OF Cons.prems assms(2), of r]
    by (simp add: store_records_def leftover_from_def)
qed

lemma slot_val_build_values:
  "wf_metrics ms \<Longrightarrow> c \<in> {0, 1, 32} \<union> keys ms \<Longrightarrow> slot_val (build_values ms) c = []"
  using slots_ok_build_values [of ms]
  by (auto simp: slot_val_def slots_ok_def build_values_nth split: option.splits if_splits)

lemma slot_val_after_records:
  assumes "wf_metrics ms" "c \<in> {0, 1, 32} \<union> keys ms"
  shows "slot_val (store_records rs (build_values ms)) c = leftover rs c"
  using slot_val_store_records [OF slots_ok_build_values [OF assms(1)] assms(2), of rs]
  by (simp add: slot_val_build_values [OF assms] leftover_def)

lemma store_fields_take:
  "length vs = rowLength \<Longrightarrow> store_fields 0 (take rowLength fs) vs = store_fields 0 fs vs"
  by (rule nth_equalityI) (auto simp: length_store_fields store_fields_nth)

lemma Scrape_records:
  assumes "wf_metrics ms" "\<forall>r \<in> set rs. r \<noteq> []" "\<forall>n. set (ord n) \<subseteq> keys ms"
  shows "scan ms lbl ord (concat (map record_tokens rs)) 0 0 (build_values ms) [] =
     Inr (store_records rs (build_values ms), records_samples ms lbl ord 0 rs (build_values ms))"
  using scan_records [OF slots_ok_build_values [OF assms(1)] assms(2,3), of lbl "[]" 0 "[]"]
  by simp

lemma records_samples_snoc:
  "records_samples ms lbl ord n (rs @ [r]) vs =
     records_samples ms lbl ord n rs vs
       @ concat (map (field_samples ms lbl (store_fields 0 r (store_records rs vs))) (ord (n + length rs)))"
  by (induction rs arbitrary: n vs) (simp_all add: store_records_def)

lemma store_records_snoc:
  "store_records (rs @ [r]) vs = store_fields 0 r (store_records rs vs)"
  by (simp add: store_records_def)


lemma keys_of_order: "mset ks = mset (map fst ms) \<Longrightarrow> set ks = keys ms"
  by (metis keys_def set_map set_mset_mset)

lemma leftover_from_mem:
  "leftover_from v rs c \<noteq> v \<Longrightarrow> \<exists>r \<in> set rs. c < length r \<and> leftover_from v rs c = r ! c"
proof (induction rs rule: rev_induct)
  case Nil
  then show ?case by (simp add: leftover_from_def)
next
  case (snoc r rs)
  then show ?case by (auto simp: leftover_from_def)
qed

lemma scan_total:
  assumes "\<forall>n. set (ord n) \<subseteq> keys ms"
  shows "slots_ok ms vs \<Longrightarrow> \<exists>W ss. scan ms lbl ord ts i n vs out = Inr (W, ss)"
proof (induction ts arbitrary: i n vs out)
  case Nil
  then show ?case by simp
next
  case (Cons t ts)
  obtain f eor where t: "t = (f, eor)" by (cases t)
  have ok: "slots_ok ms (store_field i f vs)"
    using slots_ok_store_fields [OF Cons.prems, of i "[f]"] by simp
  show ?case
    using Cons.IH [OF ok] assms
    by (simp add: t Let_def emit_record_ok [OF ok])
qed

lemma emit_record_Inr_iff:
  "(\<exists>ss. emit_record ms lbl vs ks = Inr ss) \<longleftrightarrow> (\<forall>k \<in> set ks. \<exists>ss. emit_field ms lbl vs k = Inr ss)"
  by (induction ks) (auto split: sum.splits)

lemma emit_record_mset:
  "emit_record ms lbl vs ks = Inr ss \<Longrightarrow>
   mset ss = (\<Sum>k \<in># mset ks. mset (projr (emit_field ms lbl vs k)))"
  by (induction ks arbitrary: ss) (auto split: sum.splits)

lemma emit_record_perm:
  assumes "mset ks1 = mset ks2" "emit_record ms lbl vs ks1 = Inr ss1"
  shows "\<exists>ss2. emit_record ms lbl vs ks2 = Inr ss2 \<and> mset ss2 = mset ss1"
proof -
  have "set ks1 = set ks2" using assms(1) by (rule mset_eq_setD)
  then obtain ss2 where ss2: "emit_record ms lbl vs ks2 = Inr ss2"
    using assms(2) emit_record_Inr_iff [of ms lbl vs ks1] emit_record_Inr_iff [of ms lbl vs ks2]
    by auto
  then show ?thesis
    using emit_record_mset [OF ss2] emit_record_mset [OF assms(2)] assms(1) by simp
qed

lemma scan_perm:
  assumes "\<forall>n. mset (ord1 n) = mset (ord2 n)"
  shows "scan ms lbl ord1 ts i n vs out1 = Inr (W, ss1) \<Longrightarrow> mset out2 = mset out1 \<Longrightarrow>
     \<exists>ss2. scan ms lbl ord2 ts i n vs out2 = Inr (W, ss2) \<and> mset ss2 = mset ss1"
proof (induction ts arbitrary: i n vs out1 out2)
  case Nil
  then show ?case by simp
next
  case (Cons t ts)
  obtain f eor where t: "t = (f, eor)" by (cases t)
  define vs' where "vs' = store_field i f vs"
  show ?case
  proof (cases eor)
    case False
    then show ?thesis using Cons.IH [of "Suc i" n vs' out1 out2] Cons.prems
      by (simp add: t vs'_def Let_def)
  next
    case True
    from Cons.prems(1) True obtain es1 where
      e1: "emit_record ms lbl vs' (ord1 n) = Inr es1"
      and s1: "scan ms lbl ord1 ts 0 (Suc n) vs' (out1 @ es1) = Inr (W, ss1)"
      by (auto simp: t vs'_def Let_def split: sum.splits)
    from emit_record_perm [OF _ e1, of "ord2 n"] assms obtain es2 where
      e2: "emit_record ms lbl vs' (ord2 n) = Inr es2" and m: "mset es2 = mset es1"
      by auto
    have "mset (out2 @ es2) = mset (out1 @ es1)" using m Cons.prems(2) by simp
    from Cons.IH [OF s1 this] show ?thesis
      using True e2 by (simp add: t vs'_def Let_def)
  qed
qed

subsection \<open>Records, one after the other\<close>

lemma scan_two_runs:
  assumes wf: "wf_metrics ms" and rs: "\<forall>r \<in> set rs. r \<noteq> []" and fs: "fs \<noteq> []"
    and ord: "\<forall>n. mset (ord n) = mset (map fst ms)"
  shows "scan ms lbl ord (concat (map record_tokens rs)) 0 0 (build_values ms) [] =
           Inr (store_records rs (build_values ms), records_samples ms lbl ord 0 rs (build_values ms))"
    and "scan ms lbl ord (concat (map record_tokens (rs @ [fs]))) 0 0 (build_values ms) [] =
           Inr (store_fields 0 fs (store_records rs (build_values ms)),
                records_samples ms lbl ord 0 rs (build_values ms)
                  @ concat (map (field_samples ms lbl
                      (store_fields 0 fs (store_records rs (build_values ms)))) (ord (length rs))))"
    and "emit_record ms lbl (store_fields 0 fs (store_records rs (build_values ms))) (ord (length rs)) =
           Inr (concat (map (field_samples ms lbl
                      (store_fields 0 fs (store_records rs (build_values ms)))) (ord (length rs))))"
    and "slots_ok ms (store_fields 0 fs (store_records rs (build_values ms)))"
    and "slots_ok ms (store_records rs (build_values ms))"
proof -
  have sub: "\<forall>n. set (ord n) \<subseteq> keys ms" using ord keys_of_order by blast
  show "scan ms lbl ord (concat (map record_tokens rs)) 0 0 (build_values ms) [] =
           Inr (store_records rs (build_values ms), records_samples ms lbl ord 0 rs (build_values ms))"
    by (rule Scrape_records [OF wf rs sub])
  have "\<forall>r \<in> set (rs @ [fs]). r \<noteq> []" using rs fs by simp
  from Scrape_records [OF wf this sub, of lbl]
  show "scan ms lbl ord (concat (map record_tokens (rs @ [fs]))) 0 0 (build_values ms) [] =
           Inr (store_fields 0 fs (store_records rs (build_values ms)),
                records_samples ms lbl ord 0 rs (build_values ms)
                  @ concat (map (field_samples ms lbl
                      (store_fields 0 fs (store_records rs (build_values ms)))) (ord (length rs))))"
    by (simp only: records_samples_snoc store_records_snoc add_0)
  show V: "slots_ok ms (store_records rs (build_values ms))"
    by (intro slots_ok_store_records slots_ok_build_values wf)
  then show W: "slots_ok ms (store_fields 0 fs (store_records rs (build_values ms)))"
    by (rule slots_ok_store_fields)
  show "emit_record ms lbl (store_fields 0 fs (store_records rs (build_values ms))) (ord (length rs)) =
           Inr (concat (map (field_samples ms lbl
                      (store_fields 0 fs (store_records rs (build_values ms)))) (ord (length rs))))"
    using sub by (intro emit_record_ok [OF W]) simp
qed

lemma keys_filter_metrics: "keys (filter_metrics allow tbl) \<subseteq> keys tbl"
  by (auto simp: keys_def filter_metrics_def)

lemma set_filter_metrics: "set (filter_metrics allow tbl) \<subseteq> set tbl"
  by (auto simp: filter_metrics_def)

lemma label_columns_not_in_table:
  "0 \<notin> keys metric_table" "1 \<notin> keys metric_table" "32 \<notin> keys metric_table"
  by (simp_all add: keys_def metric_table_def)

lemma field_samples_labels:
  "s \<in> set (field_samples ms lbl vs k) \<Longrightarrow>
   s_pxname s = slot_val vs 0 \<and> s_svname s = slot_val vs 1 \<and> s_type s = recode_type (slot_val vs 32)"
  by (auto simp: field_samples_def split: if_splits)

lemma scan_body_total_perm:
  assumes wf: "wf_metrics (metrics e)"
    and o1: "\<forall>n. mset (ord1 n) = mset (map fst (metrics e))"
    and o2: "\<forall>n. mset (ord2 n) = mset (map fst (metrics e))"
  shows "\<exists>W ss1 ss2. scan_body ord1 ts e = Inr (W, ss1) \<and> scan_body ord2 ts e = Inr (W, ss2)
     \<and> mset ss1 = mset ss2"
proof -
  have sub: "\<forall>n. set (ord1 n) \<subseteq> keys (metrics e)" using o1 keys_of_order by blast
  from scan_total [OF sub slots_ok_build_values [OF wf]]
  obtain W ss1 where r1: "scan_body ord1 ts e = Inr (W, ss1)"
    unfolding scan_body_def by blast
  have "\<forall>n. mset (ord1 n) = mset (ord2 n)" using o1 o2 by simp
  from scan_perm [OF this r1 [unfolded scan_body_def], of "[]"]
  obtain ss2 where "scan_body ord2 ts e = Inr (W, ss2)" "mset ss2 = mset ss1"
    unfolding scan_body_def by auto
  with r1 show ?thesis by auto
qed

subsection \<open>Values kept from earlier records\<close>

text \<open>
  Claim C10. The value slots are built once for a scrape and a record overwrites only the
  slots of the fields it has. After the records \<open>rs\<close>, a record \<open>fs\<close> with no field in the
  tracked column \<open>c\<close> (it has at most \<open>c\<close> fields) makes the loop emit for that column the
  value of the latest earlier record that had the column, with the status recoding when
  \<open>c\<close> is 17, and nothing when no earlier record had it; the labels svname and type come
  from earlier records in the same way when the record has no field 1 or 32. Fields from
  index 62 on change nothing: cutting a record \<open>g\<close> down to its first 62 fields gives the
  same result.
\<close>

theorem short_record_carries_earlier_values:
  assumes wf: "wf_metrics ms"
    and rs: "\<forall>r \<in> set rs. r \<noteq> []" and fs: "fs \<noteq> []" and g: "g \<noteq> []"
    and ord: "\<forall>n. mset (ord n) = mset (map fst ms)"
    and c: "c \<in> keys ms" and short: "length fs \<le> c"
  shows "\<exists>ss0 ss cs.
      scan ms lbl ord (concat (map record_tokens rs)) 0 0 (build_values ms) []
        = Inr (store_records rs (build_values ms), ss0)
    \<and> scan ms lbl ord (concat (map record_tokens (rs @ [fs]))) 0 0 (build_values ms) []
        = Inr (store_fields 0 fs (store_records rs (build_values ms)), ss0 @ ss)
    \<and> emit_record ms lbl (store_fields 0 fs (store_records rs (build_values ms))) (ord (length rs))
        = Inr ss
    \<and> emit_field ms lbl (store_fields 0 fs (store_records rs (build_values ms))) c = Inr cs
    \<and> set cs \<subseteq> set ss
    \<and> cs = (if leftover rs c = [] then []
            else [\<lparr>s_name = metric_name ms c, s_labels = lbl, s_pxname = fs ! 0,
                   s_svname = (if 1 < length fs then fs ! 1 else leftover rs 1),
                   s_type = recode_type (if 32 < length fs then fs ! 32 else leftover rs 32),
                   s_value = (if c = 17 then recode_status (leftover rs c) else leftover rs c)\<rparr>])
    \<and> (leftover rs c \<noteq> [] \<longrightarrow> (\<exists>r \<in> set rs. c < length r \<and> leftover rs c = r ! c))
    \<and> scan ms lbl ord (concat (map record_tokens (rs @ [take rowLength g]))) 0 0 (build_values ms) []
        = scan ms lbl ord (concat (map record_tokens (rs @ [g]))) 0 0 (build_values ms) []"
proof -
  let ?V = "store_records rs (build_values ms)"
  let ?W = "store_fields 0 fs ?V"
  note runs = scan_two_runs(1,2,3) [OF wf rs fs ord, where lbl = lbl]
  have V: "slots_ok ms ?V" by (rule scan_two_runs(5) [OF wf rs fs ord])
  have W: "slots_ok ms ?W" by (rule scan_two_runs(4) [OF wf rs fs ord])
  have cset: "c \<in> set (ord (length rs))" using ord c keys_of_order by blast
  have val: "slot_val ?W k = (if k < length fs then fs ! k else leftover rs k)"
    if "k \<in> {0, 1, 32} \<union> keys ms" for k
    using slot_val_store_fields [OF V that, of fs] slot_val_after_records [OF wf that, of rs]
    by simp
  have fld: "field_samples ms lbl ?W c =
      (if leftover rs c = [] then []
       else [\<lparr>s_name = metric_name ms c, s_labels = lbl, s_pxname = fs ! 0,
              s_svname = (if 1 < length fs then fs ! 1 else leftover rs 1),
              s_type = recode_type (if 32 < length fs then fs ! 32 else leftover rs 32),
              s_value = (if c = 17 then recode_status (leftover rs c) else leftover rs c)\<rparr>])"
  proof -
    have vc: "slot_val ?W c = leftover rs c" using val [of c] c short by simp
    have v0: "slot_val ?W 0 = fs ! 0" using val [of 0] fs by simp
    have v1: "slot_val ?W 1 = (if 1 < length fs then fs ! 1 else leftover rs 1)"
      using val [of 1] by simp
    have v32: "slot_val ?W 32 = (if 32 < length fs then fs ! 32 else leftover rs 32)"
      using val [of 32] by simp
    show ?thesis unfolding field_samples_def vc v0 v1 v32 by simp
  qed
  have sub: "set (field_samples ms lbl ?W c)
      \<subseteq> set (concat (map (field_samples ms lbl ?W) (ord (length rs))))"
    using cset by auto
  have old: "leftover rs c \<noteq> [] \<longrightarrow> (\<exists>r \<in> set rs. c < length r \<and> leftover rs c = r ! c)"
    using leftover_from_mem [of "[]" rs c] by (simp add: leftover_def)
  have len: "length ?V = rowLength" using V by (simp add: slots_ok_def)
  have tg: "take rowLength g \<noteq> []" using g by (simp add: rowLength_def)
  have trunc: "scan ms lbl ord (concat (map record_tokens (rs @ [take rowLength g]))) 0 0 (build_values ms) []
        = scan ms lbl ord (concat (map record_tokens (rs @ [g]))) 0 0 (build_values ms) []"
    unfolding scan_two_runs(2) [OF wf rs tg ord] scan_two_runs(2) [OF wf rs g ord]
    by (simp only: store_fields_take [OF len])
  show ?thesis
    using runs(1,2,3) emit_field_ok [OF W c, of lbl] sub fld old trunc by blast
qed

theorem short_record_carries_earlier_values_witness:
  "wf_metrics metric_table \<and> 17 \<in> keys metric_table \<and> length [''web2'', ''BACKEND''] \<le> 17
   \<and> (\<exists>ss0 ss.
         scan metric_table [] table_order
             (concat (map record_tokens ([up_row] @ [[''web2'', ''BACKEND'']]))) 0 0
             (build_values metric_table) []
           = Inr (store_fields 0 [''web2'', ''BACKEND'']
                   (store_records [up_row] (build_values metric_table)), ss0 @ ss)
       \<and> \<lparr>s_name = ''status'', s_labels = [], s_pxname = ''web2'', s_svname = ''BACKEND'',
           s_type = ''frontend'', s_value = ''1''\<rparr> \<in> set ss)"
proof -
  have h1: "wf_metrics metric_table" by (rule wf_metric_table)
  have h2: "\<forall>r \<in> set [up_row]. r \<noteq> []" by (simp add: up_row_def)
  have h3: "[''web2'', ''BACKEND''] \<noteq> []" by simp
  have h4: "up_row \<noteq> []" by (simp add: up_row_def)
  have h5: "\<forall>n. mset (table_order n) = mset (map fst metric_table)"
    by (simp add: table_order_def)
  have h6: "17 \<in> keys metric_table" by (simp add: keys_def metric_table_def)
  have h7: "length [''web2'', ''BACKEND''] \<le> 17" by simp
  have l17: "leftover [up_row] 17 = ''UP''"
    by (simp add: leftover_def leftover_from_def up_row_def nth_append)
  have l32: "leftover [up_row] 32 = ''0''"
    by (simp add: leftover_def leftover_from_def up_row_def nth_append)
  have n17: "metric_name metric_table 17 = ''status''"
    by (simp add: metric_name_def metric_table_def)
  from short_record_carries_earlier_values [OF h1 h2 h3 h4 h5 h6 h7, of "[]"]
  obtain ss0 ss cs where
    run: "scan metric_table [] table_order
             (concat (map record_tokens ([up_row] @ [[''web2'', ''BACKEND'']]))) 0 0
             (build_values metric_table) []
           = Inr (store_fields 0 [''web2'', ''BACKEND'']
                   (store_records [up_row] (build_values metric_table)), ss0 @ ss)"
    and sub: "set cs \<subseteq> set ss"
    and cs: "cs = (if leftover [up_row] 17 = [] then []
            else [\<lparr>s_name = metric_name metric_table 17, s_labels = [],
                   s_pxname = [''web2'', ''BACKEND''] ! 0,
                   s_svname = (if 1 < length [''web2'', ''BACKEND''] then [''web2'', ''BACKEND''] ! 1
                               else leftover [up_row] 1),
                   s_type = recode_type (if 32 < length [''web2'', ''BACKEND'']
                                         then [''web2'', ''BACKEND''] ! 32 else leftover [up_row] 32),
                   s_value = (if (17::nat) = 17 then recode_status (leftover [up_row] 17)
                              else leftover [up_row] 17)\<rparr>])"
    by blast
  have "cs = [\<lparr>s_name = ''status'', s_labels = [], s_pxname = ''web2'', s_svname = ''BACKEND'',
           s_type = ''frontend'', s_value = ''1''\<rparr>]"
    unfolding cs l17 l32 n17 by (simp add: recode_type_def recode_status_def)
  with sub have "\<lparr>s_name = ''status'', s_labels = [], s_pxname = ''web2'', s_svname = ''BACKEND'',
           s_type = ''frontend'', s_value = ''1''\<rparr> \<in> set ss" by simp
  with run h1 h6 h7 show ?thesis by blast
qed

subsection \<open>The label columns under an allow-list\<close>

text \<open>
  Claim C8, as stated, says that the columns 0, 1 and 32 of a row supply the labels of
  every sample emitted for it. With the allow-list holding only \<open>status\<close>, a full row
  followed by the row \<open>web2,BACKEND\<close> shows otherwise: the second row has no column 32
  (and no column 17), and the loop still emits a status sample for it whose type label
  and value are those of the row before.
\<close>

theorem stale_labels_under_filter:
  "emitted (scan (filter_metrics [''status''] metric_table) [] status_order
        (concat (map record_tokens [up_row, [''web2'', ''BACKEND'']])) 0 0
        (build_values (filter_metrics [''status''] metric_table)) [])
   = [\<lparr>s_name = ''status'', s_labels = [], s_pxname = ''web'', s_svname = ''FRONTEND'',
        s_type = ''frontend'', s_value = ''1''\<rparr>,
      \<lparr>s_name = ''status'', s_labels = [], s_pxname = ''web2'', s_svname = ''BACKEND'',
        s_type = ''frontend'', s_value = ''1''\<rparr>]"
  by code_simp

text \<open>
  Claim C8, amended. Whatever the allow-list is, the filtered table is a part of the full
  table and never holds the columns 0, 1 and 32, and the value array has a slot for each
  of these three columns. For a record \<open>fs\<close> read after the records \<open>rs\<close>, the loop stores
  the fields 0, 1 and 32 that the record has, and every sample emitted for the record
  takes pxname from field 0, svname from field 1 and type from the recoding of field 32
  when the record has these fields; for a field the record does not have, the label is
  the one of the latest earlier record that has it (empty when there is none).
\<close>

theorem label_columns_kept_under_filter:
  assumes ms: "ms = filter_metrics allow metric_table"
    and rs: "\<forall>r \<in> set rs. r \<noteq> []" and fs: "fs \<noteq> []"
    and ord: "\<forall>n. mset (ord n) = mset (map fst ms)"
  shows "set ms \<subseteq> set metric_table \<and> 0 \<notin> keys ms \<and> 1 \<notin> keys ms \<and> 32 \<notin> keys ms
    \<and> build_values ms ! 0 = Some [] \<and> build_values ms ! 1 = Some []
    \<and> build_values ms ! 32 = Some []
    \<and> (\<exists>W ss0 ss.
          scan ms lbl ord (concat (map record_tokens rs)) 0 0 (build_values ms) []
            = Inr (store_records rs (build_values ms), ss0)
        \<and> scan ms lbl ord (concat (map record_tokens (rs @ [fs]))) 0 0 (build_values ms) []
            = Inr (W, ss0 @ ss)
        \<and> emit_record ms lbl W (ord (length rs)) = Inr ss
        \<and> W ! 0 = Some (fs ! 0)
        \<and> W ! 1 = Some (if 1 < length fs then fs ! 1 else leftover rs 1)
        \<and> W ! 32 = Some (if 32 < length fs then fs ! 32 else leftover rs 32)
        \<and> (\<forall>s \<in> set ss.
              s_pxname s = fs ! 0
            \<and> s_svname s = (if 1 < length fs then fs ! 1 else leftover rs 1)
            \<and> s_type s = recode_type (if 32 < length fs then fs ! 32 else leftover rs 32)))"
proof -
  let ?V = "store_records rs (build_values ms)"
  let ?W = "store_fields 0 fs ?V"
  have wf: "wf_metrics ms" unfolding ms by (rule wf_filter_metrics [OF wf_metric_table])
  note runs = scan_two_runs(1,2,3) [OF wf rs fs ord, where lbl = lbl]
  have V: "slots_ok ms ?V" by (rule scan_two_runs(5) [OF wf rs fs ord])
  have W: "slots_ok ms ?W" by (rule scan_two_runs(4) [OF wf rs fs ord])
  have nokeys: "0 \<notin> keys ms \<and> 1 \<notin> keys ms \<and> 32 \<notin> keys ms"
    using keys_filter_metrics [of allow metric_table] label_columns_not_in_table
    unfolding ms by blast
  have bv: "build_values ms ! 0 = Some [] \<and> build_values ms ! 1 = Some []
      \<and> build_values ms ! 32 = Some []"
    by (simp add: build_values_nth rowLength_def)
  have val: "slot_val ?W k = (if k < length fs then fs ! k else leftover rs k)"
    if "k \<in> {0, 1, 32}" for k
  proof -
    have k: "k \<in> {0, 1, 32} \<union> keys ms" using that by blast
    show ?thesis
      using slot_val_store_fields [OF V k, of fs] slot_val_after_records [OF wf k, of rs]
      by simp
  qed
  have nth: "?W ! k = Some (slot_val ?W k)" if "k \<in> {0, 1, 32}" for k
  proof -
    have "?W ! k \<noteq> None" using W that by (auto simp: slots_ok_def)
    then show ?thesis by (auto simp: slot_val_def)
  qed
  have v0: "slot_val ?W 0 = fs ! 0" using val [of 0] fs by simp
  have v1: "slot_val ?W 1 = (if 1 < length fs then fs ! 1 else leftover rs 1)"
    using val [of 1] by simp
  have v32: "slot_val ?W 32 = (if 32 < length fs then fs ! 32 else leftover rs 32)"
    using val [of 32] by simp
  have n0: "?W ! 0 = Some (fs ! 0)" using nth [of 0] v0 by simp
  have n1: "?W ! 1 = Some (if 1 < length fs then fs ! 1 else leftover rs 1)"
    using nth [of 1] v1 by simp
  have n32: "?W ! 32 = Some (if 32 < length fs then fs ! 32 else leftover rs 32)"
    using nth [of 32] v32 by simp
  have lab: "\<forall>s \<in> set (concat (map (field_samples ms lbl ?W) (ord (length rs)))).
        s_pxname s = fs ! 0
      \<and> s_svname s = (if 1 < length fs then fs ! 1 else leftover rs 1)
      \<and> s_type s = recode_type (if 32 < length fs then fs ! 32 else leftover rs 32)"
  proof
    fix s assume "s \<in> set (concat (map (field_samples ms lbl ?W) (ord (length rs))))"
    then obtain k where "s \<in> set (field_samples ms lbl ?W k)" by auto
    from field_samples_labels [OF this] show
      "s_pxname s = fs ! 0
      \<and> s_svname s = (if 1 < length fs then fs ! 1 else leftover rs 1)
      \<and> s_type s = recode_type (if 32 < length fs then fs ! 32 else leftover rs 32)"
      unfolding v0 v1 v32 .
  qed
  show ?thesis
    using set_filter_metrics [of allow metric_table] nokeys bv runs n0 n1 n32 lab
    unfolding ms by blast
qed

theorem label_columns_kept_under_filter_witness:
  "filter_metrics [''status''] metric_table = [(17, ''status'')] \<and> up_row \<noteq> []
   \<and> (\<exists>W ss.
         scan [(17, ''status'')] [] status_order (concat (map record_tokens ([] @ [up_row]))) 0 0
             (build_values [(17, ''status'')]) [] = Inr (W, ss)
       \<and> W ! 0 = Some ''web'' \<and> W ! 1 = Some ''FRONTEND'' \<and> W ! 32 = Some ''0''
       \<and> (\<forall>s \<in> set ss. s_pxname s = ''web'' \<and> s_svname s = ''FRONTEND''
                          \<and> s_type s = ''frontend''))"
proof -
  have h1: "[(17, ''status'')] = filter_metrics [''status''] metric_table"
    by (simp add: filter_metrics_def metric_table_def)
  have h2: "\<forall>r \<in> set ([] :: string list list). r \<noteq> []" by simp
  have h3: "up_row \<noteq> []" by (simp add: up_row_def)
  have h4: "\<forall>n. mset (status_order n) = mset (map fst [(17::nat, ''status'')])"
    by (simp add: status_order_def)
  have len: "1 < length up_row" "32 < length up_row" by (simp_all add: up_row_def)
  have f: "up_row ! 0 = ''web''" "up_row ! 1 = ''FRONTEND''" "up_row ! 32 = ''0''"
    by (simp_all add: up_row_def nth_append)
  have t: "recode_type ''0'' = ''frontend''" by (simp add: recode_type_def)
  from label_columns_kept_under_filter [OF h1 h2 h3 h4, of "[]"]
  obtain W ss0 ss where
    a: "scan [(17, ''status'')] [] status_order (concat (map record_tokens [])) 0 0
              (build_values [(17, ''status'')]) []
            = Inr (store_records [] (build_values [(17, ''status'')]), ss0)"
    and b: "scan [(17, ''status'')] [] status_order (concat (map record_tokens ([] @ [up_row]))) 0 0
              (build_values [(17, ''status'')]) []
            = Inr (W, ss0 @ ss)"
    and c: "W ! 0 = Some (up_row ! 0)"
      "W ! 1 = Some (if 1 < length up_row then up_row ! 1 else leftover [] 1)"
      "W ! 32 = Some (if 32 < length up_row then up_row ! 32 else leftover [] 32)"
      "\<forall>s \<in> set ss. s_pxname s = up_row ! 0
          \<and> s_svname s = (if 1 < length up_row then up_row ! 1 else leftover [] 1)
          \<and> s_type s = recode_type (if 32 < length up_row then up_row ! 32 else leftover [] 32)"
    by blast
  from a have "ss0 = []" by simp
  with b c len show ?thesis unfolding f t using h1 h3 by (simp add: f t)
qed

subsection \<open>Independence of the order of the range loop\<close>

text \<open>
  Claim C7. Parsing and mapping a report is a function of the scanned report and of the
  exporter's table and labels, up to the order in which Go ranges over the table. For two
  runs over the same report that visit the table in any two orders (each a permutation of
  its keys, possibly a different one for every record) and at two times, both runs
  succeed, end with the same value array, and produce the same multiset of samples; the
  buffers they publish are the renderings of these samples.
\<close>

theorem samples_do_not_depend_on_map_order:
  assumes wf: "wf_metrics (metrics e)"
    and o1: "\<forall>n. mset (ord1 n) = mset (map fst (metrics e))"
    and o2: "\<forall>n. mset (ord2 n) = mset (map fst (metrics e))"
  shows "\<exists>W ss1 ss2.
      scan_body ord1 ts e = Inr (W, ss1) \<and> scan_body ord2 ts e = Inr (W, ss2)
    \<and> mset ss1 = mset ss2
    \<and> mset (map (gts now) ss1) = mset (map (gts now) ss2)
    \<and> Scrape ord1 now1 (Inr ts) e
        = Inr (True, (clear e)\<lparr>sensision := concat (map (gts now1) ss1)\<rparr>)
    \<and> Scrape ord2 now2 (Inr ts) e
        = Inr (True, (clear e)\<lparr>sensision := concat (map (gts now2) ss2)\<rparr>)"
proof -
  have c: "metrics (clear e) = metrics e" "labels (clear e) = labels e" "sensision (clear e) = []"
    by (simp_all add: clear_def)
  have same: "scan_body ord ts (clear e) = scan_body ord ts e" for ord
    by (simp add: scan_body_def c)
  from scan_body_total_perm [OF wf o1 o2, of ts]
  obtain W ss1 ss2 where r: "scan_body ord1 ts e = Inr (W, ss1)" "scan_body ord2 ts e = Inr (W, ss2)"
    and m: "mset ss1 = mset ss2" by blast
  have "mset (map (gts now) ss1) = mset (map (gts now) ss2)"
    using m by (metis mset_map)
  moreover have "Scrape ord1 now1 (Inr ts) e
        = Inr (True, (clear e)\<lparr>sensision := concat (map (gts now1) ss1)\<rparr>)"
    by (simp add: Scrape_def Let_def same r c)
  moreover have "Scrape ord2 now2 (Inr ts) e
        = Inr (True, (clear e)\<lparr>sensision := concat (map (gts now2) ss2)\<rparr>)"
    by (simp add: Scrape_def Let_def same r c)
  ultimately show ?thesis using r m by blast
qed

theorem samples_do_not_depend_on_map_order_witness:
  "\<exists>W ss1 ss2.
      scan_body table_order short_report demo_exporter = Inr (W, ss1)
    \<and> scan_body reverse_order short_report demo_exporter = Inr (W, ss2)
    \<and> mset ss1 = mset ss2"
proof -
  have wf: "wf_metrics (metrics demo_exporter)"
    by (simp add: demo_exporter_def wf_metric_table)
  have o1: "\<forall>n. mset (table_order n) = mset (map fst (metrics demo_exporter))"
    by (simp add: demo_exporter_def table_order_def)
  have o2: "\<forall>n. mset (reverse_order n) = mset (map fst (metrics demo_exporter))"
    by (simp add: demo_exporter_def reverse_order_def)
  from samples_do_not_depend_on_map_order [OF wf o1 o2, of short_report]
  show ?thesis by blast
qed

subsection \<open>Fetch failure\<close>

text \<open>
  Claim C4. When the fetch returns an error, \<^verbatim>\<open>Scrape()\<close> returns false and leaves the
  published buffer empty, whatever it held before: \<^verbatim>\<open>Metrics()\<close> then returns the empty
  rendering, and nothing else of the exporter changes.
\<close>

theorem Scrape_fetch_error_clears:
  "Scrape ord now (Inl err) e = Inr (False, e\<lparr>sensision := []\<rparr>)
   \<and> Metrics (e\<lparr>sensision := []\<rparr>) = []"
  by (simp add: Scrape_def clear_def Metrics_def)

section \<open>Properties of the Prometheus exporter\<close>

subsection \<open>Auxiliary facts\<close>









subsection \<open>Rows with too few fields\<close>




subsection \<open>The status gauge\<close>

text \<open>
  Claim C1. \<^verbatim>\<open>exportCsvFields\<close> assigns 0 to the value after its status switch, so the
  status gauge of a row whose status field is \<open>UP\<close> is set to 0, not to 1. The switch of
  the row-scanning \<^verbatim>\<open>Scrape\<close> has no such assignment and gives \<open>1\<close> for \<open>UP\<close>.
\<close>

theorem prom_status_of_up_row_is_zero:
  "gauge_at (prom_Scrape prom_table_order (Inr [Row up_row]) Map.empty) 17
       [''web'', ''FRONTEND'', ''0''] = Some 0
   \<and> prom_status_value ''UP'' = 0
   \<and> recode_status ''UP'' = ''1''"
  by code_simp

subsection \<open>The type label\<close>




section \<open>Properties of the fetchers\<close>




section \<open>Properties of the scheduler\<close>

subsection \<open>Counters that do not wrap\<close>

lemma unat_succ_le: "unat (c + 1 :: 64 word) \<le> Suc (unat c)"
  by (metis Suc_eq_plus1 le_refl unatSuc unat_0 zero_le add.commute)

lemma sint_small:
  assumes "unat (c :: 64 word) < 2 ^ 63"
  shows "sint c = int (unat c)"
proof -
  have "int (unat c) < 2 ^ 63" using assms by (metis of_nat_less_iff of_nat_numeral of_nat_power)
  then have u: "uint c < 2 ^ 63" by simp
  have "sint c = signed_take_bit 63 (uint c)" by (simp add: sint_uint)
  also have "\<dots> = uint c"
    using u by (intro signed_take_bit_int_eq_self) (simp_all add: order_trans [of _ 0])
  finally show ?thesis by simp
qed

lemma unat_succ:
  assumes "unat (c :: 64 word) < 2 ^ 63 - 1"
  shows "unat (c + 1) = Suc (unat c)"
proof -
  have "unat c + unat (1 :: 64 word) < 2 ^ LENGTH(64)" using assms by simp
  then show ?thesis by (simp add: unat_add_lem [THEN iffD1])
qed

lemma sint_succ:
  assumes "unat (c :: 64 word) < 2 ^ 63 - 1"
  shows "sint (c + 1) = sint c + 1"
proof -
  have "unat (c + 1) < 2 ^ 63" using assms unat_succ [OF assms] by simp
  then show ?thesis using assms by (simp add: sint_small unat_succ)
qed

lemma run_snoc: "run N K (evs @ [ev]) s = step N K ev (run N K evs s)"
  by (induction evs arbitrary: s) simp_all

lemma step_counters_below:
  "counters_below n (beamer s) \<Longrightarrow> counters_below (Suc n) (beamer (step N K ev s))"
  using unat_succ_le [of "scrapeCounter (beamer s)"] unat_succ_le [of "scrapeSkiped (beamer s)"]
    unat_succ_le [of "scrapeFailures (beamer s)"]
  by (cases ev) (auto simp: counters_below_def)

lemma step_cursor: "0 < N \<Longrightarrow> cursor s < N \<Longrightarrow> cursor (step N K ev s) < N"
  by (cases ev) auto

lemma run_invariant:
  "0 < N \<Longrightarrow> cursor (run N K evs init) < N \<and> counters_below (length evs) (beamer (run N K evs init))"
proof (induction evs rule: rev_induct)
  case Nil
  then show ?case by (simp add: init_def counters_below_def)
next
  case (snoc ev evs)
  then show ?case by (simp add: run_snoc step_cursor step_counters_below)
qed

lemma step_monotone:
  assumes "counters_below n (beamer s)" "n < 2 ^ 63 - 1"
  shows "sint (scrapeCounter (beamer s)) \<le> sint (scrapeCounter (beamer (step N K ev s)))
    \<and> sint (scrapeSkiped (beamer s)) \<le> sint (scrapeSkiped (beamer (step N K ev s)))
    \<and> sint (scrapeFailures (beamer s)) \<le> sint (scrapeFailures (beamer (step N K ev s)))"
proof -
  have "unat (scrapeCounter (beamer s)) < 2 ^ 63 - 1" "unat (scrapeSkiped (beamer s)) < 2 ^ 63 - 1"
    "unat (scrapeFailures (beamer s)) < 2 ^ 63 - 1"
    using assms by (auto simp: counters_below_def)
  then show ?thesis by (cases ev) (simp_all add: sint_succ)
qed

subsection \<open>The two transitions of a tick\<close>

text \<open>
  Claim C6. Let \<open>s\<close> be the state after any sequence of events from the start, for \<open>N > 0\<close>
  exporters and a channel of capacity \<open>K\<close>. The cursor is below \<open>N\<close>. A tick does exactly
  one of two things. When the channel has room, it adds one to the scrape counter, moves
  the cursor to the next exporter modulo \<open>N\<close> and takes a slot. When the channel is full,
  it adds one to the skipped counter and leaves the cursor and everything else alone.
  No event makes any of the three counters smaller. The counters are 64-bit and each
  event adds at most one to one of them, so this holds while fewer than \<open>2^63 - 1\<close>
  events have happened; the ticker fires at most once a millisecond.
\<close>

theorem tick_transitions_and_monotone_counters:
  assumes N: "0 < N" and len: "length evs < 2 ^ 63 - 1" and s: "s = run N K evs init"
  shows "cursor s < N
    \<and> (running s < K \<longrightarrow>
         step N K Tick s =
           s\<lparr>beamer := (beamer s)\<lparr>scrapeCounter := scrapeCounter (beamer s) + 1\<rparr>,
             cursor := Suc (cursor s) mod N, running := Suc (running s),
             unreported := Suc (unreported s)\<rparr>
         \<and> sint (scrapeCounter (beamer s) + 1) = sint (scrapeCounter (beamer s)) + 1)
    \<and> (\<not> running s < K \<longrightarrow>
         step N K Tick s = s\<lparr>beamer := (beamer s)\<lparr>scrapeSkiped := scrapeSkiped (beamer s) + 1\<rparr>\<rparr>
         \<and> cursor (step N K Tick s) = cursor s
         \<and> sint (scrapeSkiped (beamer s) + 1) = sint (scrapeSkiped (beamer s)) + 1)
    \<and> (\<forall>ev. sint (scrapeCounter (beamer s)) \<le> sint (scrapeCounter (beamer (step N K ev s)))
           \<and> sint (scrapeSkiped (beamer s)) \<le> sint (scrapeSkiped (beamer (step N K ev s)))
           \<and> sint (scrapeFailures (beamer s)) \<le> sint (scrapeFailures (beamer (step N K ev s))))"
proof -
  have inv: "cursor s < N" "counters_below (length evs) (beamer s)"
    using run_invariant [OF N, of K evs] s by simp_all
  have small: "unat (scrapeCounter (beamer s)) < 2 ^ 63 - 1"
    "unat (scrapeSkiped (beamer s)) < 2 ^ 63 - 1"
    using inv(2) len by (auto simp: counters_below_def)
  have wrap: "(if N \<le> Suc (cursor s) then 0 else Suc (cursor s)) = Suc (cursor s) mod N"
    using inv(1) by (cases "Suc (cursor s) = N") auto
  have free: "running s < K \<Longrightarrow> step N K Tick s =
           s\<lparr>beamer := (beamer s)\<lparr>scrapeCounter := scrapeCounter (beamer s) + 1\<rparr>,
             cursor := Suc (cursor s) mod N, running := Suc (running s),
             unreported := Suc (unreported s)\<rparr>"
    using wrap by simp
  have full: "\<not> running s < K \<Longrightarrow> step N K Tick s =
      s\<lparr>beamer := (beamer s)\<lparr>scrapeSkiped := scrapeSkiped (beamer s) + 1\<rparr>\<rparr>"
    by simp
  show ?thesis
    using inv(1) free full sint_succ [OF small(1)] sint_succ [OF small(2)]
      step_monotone [OF inv(2) len, of N K]
    by simp
qed

theorem tick_transitions_and_monotone_counters_witness:
  "(0::nat) < 2 \<and> length [Tick] < 2 ^ 63 - 1
   \<and> running (run 2 1 [Tick] init) = 1 \<and> cursor (run 2 1 [Tick] init) = 1
   \<and> scrapeCounter (beamer (run 2 1 [Tick] init)) = 1
   \<and> step 2 1 Tick (run 2 1 [Tick] init) =
        (run 2 1 [Tick] init)\<lparr>beamer := (beamer (run 2 1 [Tick] init))
           \<lparr>scrapeSkiped := scrapeSkiped (beamer (run 2 1 [Tick] init)) + 1\<rparr>\<rparr>
   \<and> cursor (step 2 1 Tick (run 2 1 [Tick] init)) = 1"
proof -
  have h1: "(0::nat) < 2" by simp
  have h2: "length [Tick] < 2 ^ 63 - 1" by simp
  have r: "running (run 2 1 [Tick] init) = 1" "cursor (run 2 1 [Tick] init) = 1"
    "scrapeCounter (beamer (run 2 1 [Tick] init)) = 1"
    by (simp_all add: init_def)
  from tick_transitions_and_monotone_counters [OF h1 h2 refl, of 1] r
  show ?thesis by simp
qed

end
